theory Spec2Isabelle
  imports Complex_Main "HOL-Library.Word"
begin

unbundle bit_operations_syntax

section \<open>Machine integers of \<open>source/util/bit_stream.h\<close>\<close>

text \<open>
  \<open>uint64_t\<close> and \<open>int64_t\<close> are both 64-bit words: a conversion between them keeps the
  bit pattern, \<open>sint\<close> reads the signed value and \<open>uint\<close>/\<open>unat\<close> the unsigned one.
  Signed arithmetic is two's complement and wraps (\<open>- val - 1\<close> at the least
  \<open>int64_t\<close> is the greatest one), \<open>>>\<close> on a signed value is the arithmetic shift
  \<open>signed_drop_bit\<close>, on an unsigned value the logical shift \<open>drop_bit\<close>; \<open><<\<close> is
  \<open>push_bit\<close>. \<open>size_t\<close> is taken as 64 bits wide.
\<close>

type_synonym uint64_t = "64 word"
type_synonym int64_t = "64 word"
type_synonym size_t = "64 word"

section \<open>Conversion helpers\<close>

text \<open>
  \<open>GetLowerBits<T>(in, num_bits)\<close>, for \<open>T\<close> one of \<open>uint8_t\<close>, \<open>uint16_t\<close>, \<open>uint32_t\<close>
  and \<open>uint64_t\<close>:
  \<^verbatim>\<open>return sizeof(T) * 8 == num_bits ? in : in & T((T(1) << num_bits) - T(1));\<close>
  For \<open>uint32_t\<close> and \<open>uint64_t\<close> the shift and the subtraction are done in \<open>T\<close>: the
  subtraction wraps around, and a shift by the width or more is undefined, the
  result \<open>None\<close> of \<open>shl\<close>. A \<open>T\<close> narrower than \<open>int\<close> (32 bits) is promoted: \<open>T(1)\<close>
  becomes the \<open>int\<close> 1, the shift and the subtraction are done in \<open>int\<close> and \<open>T(...)\<close>
  keeps the low bits of the difference. In \<open>int\<close> a shift is undefined when the count
  is 32 or more, the left operand is negative or the product does not fit
  \<open>unsigned int\<close> (\<open>int_shl\<close>), and a subtraction is undefined when it overflows
  (\<open>int_minus\<close>). \<open>GetLowerBits\<close> passes \<open>None\<close> on.
\<close>

definition shl :: "'a::len word \<Rightarrow> nat \<Rightarrow> 'a word option" where
  "shl x n = (if n < LENGTH('a) then Some (push_bit n x) else None)"

definition int_shl :: "32 word \<Rightarrow> nat \<Rightarrow> 32 word option" where
  "int_shl x n =
     (if n < 32 \<and> 0 \<le> sint x \<and> sint x * 2 ^ n < 2 ^ 32 then Some (push_bit n x)
      else None)"

definition int_minus :: "32 word \<Rightarrow> 32 word \<Rightarrow> 32 word option" where
  "int_minus a b =
     (if - (2 ^ 31) \<le> sint a - sint b \<and> sint a - sint b < 2 ^ 31 then Some (a - b)
      else None)"

definition GetLowerBits :: "'a::len word \<Rightarrow> nat \<Rightarrow> 'a word option" where
  "GetLowerBits in' num_bits =
     (if LENGTH('a) = num_bits then Some in'
      else if LENGTH('a) < 32 then
        (case int_shl 1 num_bits of
           None \<Rightarrow> None
         | Some m \<Rightarrow>
             (case int_minus m 1 of
                None \<Rightarrow> None
              | Some d \<Rightarrow> Some (in' AND ucast d)))
      else
        (case shl (1 :: 'a word) num_bits of
           None \<Rightarrow> None
         | Some m \<Rightarrow> Some (in' AND (m - 1))))"

section \<open>ZigZag codec\<close>

text \<open>\<^verbatim>\<open>inline uint64_t EncodeZigZag(int64_t val) { return (val << 1) ^ (val >> 63); }\<close>\<close>

definition EncodeZigZag :: "int64_t \<Rightarrow> uint64_t" where
  "EncodeZigZag val = push_bit 1 val XOR signed_drop_bit 63 val"

text \<open>
  \<open>DecodeZigZag(uint64_t val)\<close>: \<open>-1 - (val >> 1)\<close> when \<open>val & 1\<close>, else \<open>val >> 1\<close>;
  the subtraction is unsigned (modulo \<open>2 ^ 64\<close>) and the result is read as \<open>int64_t\<close>.
\<close>

definition DecodeZigZag :: "uint64_t \<Rightarrow> int64_t" where
  "DecodeZigZag val = (if val AND 1 \<noteq> 0 then - 1 - drop_bit 1 val else drop_bit 1 val)"

text \<open>
  The block variants start with \<open>assert(block_exponent < 64)\<close>: a failed assertion is
  the result \<open>None\<close>. The encoder:
  \<^verbatim>\<open>const uint64_t uval = static_cast<uint64_t>(val >= 0 ? val : -val - 1);\<close>
  \<^verbatim>\<open>const uint64_t block_num = ((uval >> block_exponent) << 1) + (val >= 0 ? 0 : 1);\<close>
  \<^verbatim>\<open>const uint64_t pos = GetLowerBits(uval, block_exponent);\<close>
  \<^verbatim>\<open>return (block_num << block_exponent) + pos;\<close>
  The decoder:
  \<^verbatim>\<open>const uint64_t block_num = val >> block_exponent;\<close>
  \<^verbatim>\<open>const uint64_t pos = GetLowerBits(val, block_exponent);\<close>
  \<^verbatim>\<open>if (block_num & 1) return -1LL - ((block_num >> 1) << block_exponent) - pos;\<close>
  \<^verbatim>\<open>else return ((block_num >> 1) << block_exponent) + pos;\<close>
\<close>

definition EncodeZigZag_block :: "int64_t \<Rightarrow> nat \<Rightarrow> uint64_t option" where
  "EncodeZigZag_block val block_exponent =
     (if \<not> block_exponent < 64 then None
      else
        let uval = (if 0 \<le>s val then val else - val - 1);
            block_num = push_bit 1 (drop_bit block_exponent uval)
                        + (if 0 \<le>s val then 0 else 1)
        in case GetLowerBits uval block_exponent of
             None \<Rightarrow> None
           | Some pos \<Rightarrow> Some (push_bit block_exponent block_num + pos))"

definition DecodeZigZag_block :: "uint64_t \<Rightarrow> nat \<Rightarrow> int64_t option" where
  "DecodeZigZag_block val block_exponent =
     (if \<not> block_exponent < 64 then None
      else
        let block_num = drop_bit block_exponent val
        in case GetLowerBits val block_exponent of
             None \<Rightarrow> None
           | Some pos \<Rightarrow>
               if block_num AND 1 \<noteq> 0
               then Some (- 1 - push_bit block_exponent (drop_bit 1 block_num) - pos)
               else Some (push_bit block_exponent (drop_bit 1 block_num) + pos))"


section \<open>Bit counts, strings and word buffers\<close>

text \<open>
  \<open>NumBitsToNumWords<N>(num_bits)\<close>: \<^verbatim>\<open>return (num_bits + (N - 1)) / N;\<close> in \<open>size_t\<close>,
  where the addition wraps around. \<open>N = 0\<close> divides by zero: the result \<open>None\<close>.
\<close>

definition NumBitsToNumWords :: "size_t \<Rightarrow> size_t \<Rightarrow> size_t option" where
  "NumBitsToNumWords N num_bits =
     (if N = 0 then None else Some ((num_bits + (N - 1)) div N))"

text \<open>
  \<open>PadToWord<N>(str)\<close>; lengths of strings are natural numbers. \<open>str.size() % N\<close> with
  \<open>N = 0\<close> divides by zero: the result \<open>None\<close>.
\<close>

definition PadToWord :: "nat \<Rightarrow> string \<Rightarrow> string option" where
  "PadToWord N str =
     (if N = 0 then None
      else
        let tail_length = length str mod N
        in if tail_length \<noteq> 0 then Some (str @ replicate (N - tail_length) CHR ''0'')
           else Some str)"

text \<open>
  A \<open>std::bitset<N>\<close> is an \<open>N\<close>-bit word. \<open>to_string\<close> prints the highest bit first.
  The constructor \<open>bitset(str, pos, n)\<close> throws \<open>std::out_of_range\<close> when \<open>pos\<close> is
  beyond the string and \<open>std::invalid_argument\<close> when one of the characters it reads
  is neither \<open>0\<close> nor \<open>1\<close>; of the characters it reads, the last is bit 0.
  \<open>to_ullong\<close> throws \<open>std::overflow_error\<close> when the value does not fit 64 bits.
\<close>

datatype cpp_error = OutOfRange | InvalidArgument | OverflowError

definition bitset_to_string :: "'a::len word \<Rightarrow> string" where
  "bitset_to_string b =
     map (\<lambda>i. if bit b i then CHR ''1'' else CHR ''0'') (rev [0..<LENGTH('a)])"

definition bitset_from_string :: "string \<Rightarrow> nat \<Rightarrow> nat \<Rightarrow> cpp_error + 'a::len word" where
  "bitset_from_string str pos n =
     (if length str < pos then Inl OutOfRange
      else
        let sub = take n (drop pos str)
        in if \<not> list_all (\<lambda>c. c = CHR ''0'' \<or> c = CHR ''1'') sub then Inl InvalidArgument
           else Inr (horner_sum of_bool 2
                       (map (\<lambda>c. c = CHR ''1'') (rev (take LENGTH('a) sub)))))"

definition to_ullong :: "'a::len word \<Rightarrow> cpp_error + uint64_t" where
  "to_ullong b = (if unat b < 2 ^ 64 then Inr (ucast b) else Inl OverflowError)"

text \<open>
  \<open>BufferToStream<T>(buffer)\<close>: for each word, the reversed \<open>to_string\<close> of its bitset,
  appended to the stream.
\<close>

fun BufferToStream :: "'a::len word list \<Rightarrow> string" where
  "BufferToStream [] = []"
| "BufferToStream (w # buffer) = rev (bitset_to_string w) @ BufferToStream buffer"

text \<open>
  \<open>StreamToBuffer<T>(str)\<close>. \<open>int\<close> is 32 bits wide: \<open>static_cast<int>(str.length())\<close>
  keeps the low 32 bits, read as two's complement (\<open>int_of_size_t\<close>), and the
  subtraction \<open>str_length - word_size\<close> wraps around (\<open>wrap_int\<close>). \<open>sizeof(T) * 8\<close> is
  at most 64 for an unsigned integer type, so \<open>word_size\<close> is \<open>LENGTH('a)\<close> itself. In
  the loop \<open>index\<close> is not negative when \<open>word_size\<close> is subtracted, so that subtraction
  cannot overflow. The call of \<open>reserve\<close> changes no result and is left out. The loop:
  \<^verbatim>\<open>for (int index = str_length - word_size; index >= 0; index -= word_size)\<close>
  \<^verbatim>\<open>  buffer.push_back(static_cast<T>(std::bitset<sizeof(T) * 8>(\<close>
  \<^verbatim>\<open>      str, index, word_size).to_ullong()));\<close>
  and after it, with \<open>suffix_length = str.length() % word_size\<close>, if that is not 0:
  \<^verbatim>\<open>buffer.push_back(static_cast<T>(std::bitset<sizeof(T) * 8>(\<close>
  \<^verbatim>\<open>    str, 0, suffix_length).to_ullong()));\<close>
\<close>

definition wrap_int :: "int \<Rightarrow> int" where
  "wrap_int i = (i + 2 ^ 31) mod 2 ^ 32 - 2 ^ 31"

definition int_of_size_t :: "nat \<Rightarrow> int" where
  "int_of_size_t n = (int n + 2 ^ 31) mod 2 ^ 32 - 2 ^ 31"

function StreamToBuffer_loop ::
  "string \<Rightarrow> int \<Rightarrow> 'a::len word list \<Rightarrow> cpp_error + 'a word list" where
  "StreamToBuffer_loop str index buffer =
     (if index \<ge> 0 then
        (case bitset_from_string str (nat index) LENGTH('a) of
           Inl e \<Rightarrow> Inl e
         | Inr (b :: 'a word) \<Rightarrow>
             (case to_ullong b of
                Inl e \<Rightarrow> Inl e
              | Inr u \<Rightarrow>
                  StreamToBuffer_loop str (index - int LENGTH('a)) (buffer @ [ucast u])))
      else Inr buffer)"
  by pat_completeness auto
termination
  by (relation "measure (\<lambda>(str, index, buffer). nat (index + 1))") (auto simp: Suc_le_eq)

declare StreamToBuffer_loop.simps [simp del]

definition StreamToBuffer :: "string \<Rightarrow> cpp_error + 'a::len word list" where
  "StreamToBuffer s =
     (let str = rev s;
          word_size = int LENGTH('a);
          str_length = int_of_size_t (length str)
      in case StreamToBuffer_loop str (wrap_int (str_length - word_size)) [] of
           Inl e \<Rightarrow> Inl e
         | Inr buffer \<Rightarrow>
             let suffix_length = length str mod LENGTH('a)
             in if suffix_length \<noteq> 0 then
                  (case bitset_from_string str 0 suffix_length of
                     Inl e \<Rightarrow> Inl e
                   | Inr (b :: 'a word) \<Rightarrow>
                       (case to_ullong b of
                          Inl e \<Rightarrow> Inl e
                        | Inr u \<Rightarrow> Inr (buffer @ [ucast u])))
                else Inr buffer)"

section \<open>The writer: what the header defines\<close>

text \<open>
  \<open>BitWriterWord64\<close> holds \<open>buffer_\<close> and \<open>end_\<close> (a name cannot end in an underscore
  here). \<open>GetData\<close> is the word array seen as bytes; the lowest byte of a word comes
  first, as on the little-endian hosts the code runs on. \<open>GetDataCopy\<close> copies
  \<open>GetDataSizeBytes()\<close> bytes from there; reading past the array is undefined:
  \<open>None\<close>.
\<close>

type_synonym uint8_t = "8 word"

record BitWriterWord64 =
  wr_buffer :: "uint64_t list"
  wr_end :: size_t

definition GetNumBits :: "BitWriterWord64 \<Rightarrow> size_t" where
  "GetNumBits w = wr_end w"

definition GetDataSizeBytes :: "BitWriterWord64 \<Rightarrow> size_t option" where
  "GetDataSizeBytes w = NumBitsToNumWords 8 (GetNumBits w)"

definition word_bytes :: "uint64_t \<Rightarrow> uint8_t list" where
  "word_bytes x = map (\<lambda>i. ucast (drop_bit (8 * i) x)) [0..<8]"

definition GetData :: "BitWriterWord64 \<Rightarrow> uint8_t list" where
  "GetData w = concat (map word_bytes (wr_buffer w))"

definition GetDataCopy :: "BitWriterWord64 \<Rightarrow> uint8_t list option" where
  "GetDataCopy w =
     (case GetDataSizeBytes w of
        None \<Rightarrow> None
      | Some n \<Rightarrow>
          if unat n \<le> length (GetData w) then Some (take (unat n) (GetData w)) else None)"

section \<open>The reader: what the header defines\<close>

text \<open>
  \<open>BitReaderInterface::OnlyZeroesLeft\<close> is \<^verbatim>\<open>return ReachedEnd();\<close> with \<open>ReachedEnd\<close>
  pure virtual: the method of the implementing class is a parameter.
\<close>

definition BitReaderInterface_OnlyZeroesLeft :: "('r \<Rightarrow> bool) \<Rightarrow> 'r \<Rightarrow> bool" where
  "BitReaderInterface_OnlyZeroesLeft ReachedEnd r = ReachedEnd r"


section \<open>What \<open>bit_stream.cpp\<close> defines, modelled from the specification\<close>

text \<open>
  The header declares \<open>WriteBits\<close>, \<open>ReadBits\<close>, the \<open>WriteVariableWidth\<close> and
  \<open>ReadVariableWidth\<close> families and the members of \<open>BitReaderWord64\<close>; their bodies
  are in \<open>source/util/bit_stream.cpp\<close>, which is not among the sources.
\<close>

subsection \<open>Raw bit operations\<close>

text \<open>
  Modelled from the spec: \<open>WriteBits\<close> (pure virtual in \<open>BitWriterInterface\<close>, its
  body is missing). The header says it "writes lower \<open>num_bits\<close> in \<open>bits\<close> to the
  stream", the first bit being the lowest; Section 4.4 says the bits are placed at
  the end and the bit count advances by \<open>num_bits\<close>. The state of a writer is the
  list of the bits written so far, in the order written. At most 64 bits may be
  asked for; the callers below ask for a chunk length or for one bit.
\<close>

definition WriteBits :: "bool list \<Rightarrow> uint64_t \<Rightarrow> nat \<Rightarrow> bool list" where
  "WriteBits stream bits num_bits = stream @ map (bit bits) [0..<num_bits]"

text \<open>
  Modelled from the spec: \<open>ReadBits\<close> (pure virtual in \<open>BitReaderInterface\<close>, its
  body is missing). The header says it "reads \<open>num_bits\<close> from the stream, stores them
  in \<open>bits\<close>" and "returns number of read bits"; Section 4.5 says it produces fewer
  than \<open>num_bits\<close> only when fewer remain. The state of a reader is the list of the
  bits not yet read; the result is the value, the number of bits read and the new
  state.
\<close>

definition ReadBits :: "bool list \<Rightarrow> nat \<Rightarrow> uint64_t \<times> nat \<times> bool list" where
  "ReadBits stream num_bits =
     (let got = take num_bits stream
      in (horner_sum of_bool 2 got, length got, drop num_bits stream))"

subsection \<open>Variable-width chunked encoding\<close>

text \<open>
  Modelled from the spec: the length of the next chunk, which the missing bodies of
  \<open>WriteVariableWidth\<close> and \<open>ReadVariableWidth\<close> compute. Section 4.3 speaks of
  \<open>C\<close>-bit slices throughout; the header's comment on \<open>WriteVariableWidthU64\<close> says
  "the last chunk can be truncated and signal bit omitted, if the entire payload
  (for example 16 bit for uint16_t) has already been written". Both readings are
  modelled: with \<open>truncate_last\<close> the last chunk is cut at the width \<open>W\<close>, without it
  every chunk has \<open>C\<close> bits.
\<close>

definition chunk_bits :: "bool \<Rightarrow> nat \<Rightarrow> nat \<Rightarrow> nat \<Rightarrow> nat" where
  "chunk_bits truncate_last W C done = (if truncate_last then min C (W - done) else C)"

text \<open>
  Modelled from the spec: the encoder behind \<open>WriteVariableWidthU8/U16/U32/U64\<close>
  (declared in the header, bodies missing). Section 4.3: "while bits remain to be
  emitted, emit the next C-bit slice (least-significant first) of the remaining
  value; after emitting a slice, if the number of bits emitted so far has reached W,
  stop (no continuation bit). Otherwise emit a continuation bit: 1 if any remaining
  higher-order bits of the value are non-zero (more chunks follow), 0 if none remain
  (last chunk, loop ends)." With chunk length 0 and a value that is not 0 the loop
  never ends: the result \<open>None\<close>.
\<close>

partial_function (option) WriteVariableWidth_loop ::
  "bool \<Rightarrow> nat \<Rightarrow> nat \<Rightarrow> uint64_t \<Rightarrow> nat \<Rightarrow> bool list \<Rightarrow> bool list option" where
  "WriteVariableWidth_loop truncate_last W C val emitted stream =
     (if emitted < W then
        (let n = chunk_bits truncate_last W C emitted;
             stream1 = WriteBits stream val n
         in if W \<le> emitted + n then Some stream1
            else
              let rest = drop_bit C val
              in if rest \<noteq> 0
                 then WriteVariableWidth_loop truncate_last W C rest (emitted + n)
                        (WriteBits stream1 1 1)
                 else Some (WriteBits stream1 0 1))
      else Some stream)"

text \<open>
  Modelled from the spec: the decoder behind \<open>ReadVariableWidthU8/U16/U32/U64\<close>
  (declared in the header, bodies missing). Section 4.3: "while fewer than W bits
  have been consumed, read C bits and OR them, left-shifted into position, into the
  accumulator; if the running consumed-bit count has now reached W, decoding
  succeeds. Otherwise read one continuation bit: 0 means success and stop; 1 means
  continue the loop. If the stream is exhausted before the value is fully resolved
  (a raw bit read returns fewer bits than requested), decoding fails". The result
  \<open>None\<close> is the return value \<open>false\<close>; \<open>Some\<close> carries the decoded value and the
  reader's new state.
\<close>

function ReadVariableWidth_loop ::
  "bool \<Rightarrow> nat \<Rightarrow> nat \<Rightarrow> uint64_t \<Rightarrow> nat \<Rightarrow> bool list \<Rightarrow> (uint64_t \<times> bool list) option" where
  "ReadVariableWidth_loop truncate_last W C acc consumed stream =
     (if consumed < W then
        (let n = chunk_bits truncate_last W C consumed
         in case ReadBits stream n of
              (bits, num_read, stream1) \<Rightarrow>
                if num_read \<noteq> n then None
                else
                  let acc1 = acc OR push_bit consumed bits
                  in if W \<le> consumed + n then Some (acc1, stream1)
                     else
                       (case ReadBits stream1 1 of
                          (more_to_come, num_read1, stream2) \<Rightarrow>
                            if num_read1 \<noteq> 1 then None
                            else if more_to_come = 0 then Some (acc1, stream2)
                            else ReadVariableWidth_loop truncate_last W C acc1
                                   (consumed + n) stream2))
      else Some (acc, stream))"
  by pat_completeness auto
termination
  by (relation "measure (\<lambda>(truncate_last, W, C, acc, consumed, stream). length stream)")
    (auto simp: ReadBits_def Let_def split: if_splits)

declare ReadVariableWidth_loop.simps [simp del]

text \<open>
  Modelled from the spec: \<open>WriteVariableWidthU8\<close>, \<open>U16\<close>, \<open>U32\<close> and \<open>U64\<close> (bodies
  missing) are the encoder at the width \<open>W\<close> of the value's type, here \<open>LENGTH('a)\<close> at
  \<open>'a = 8\<close>, \<open>16\<close>, \<open>32\<close> and \<open>64\<close>.
\<close>

definition WriteVariableWidthU ::
  "bool \<Rightarrow> bool list \<Rightarrow> 'a::len word \<Rightarrow> nat \<Rightarrow> bool list option" where
  "WriteVariableWidthU truncate_last stream val chunk_length =
     WriteVariableWidth_loop truncate_last LENGTH('a) chunk_length (ucast val) 0 stream"

text \<open>
  Modelled from the spec: \<open>ReadVariableWidthU8\<close>, \<open>U16\<close>, \<open>U32\<close> and \<open>U64\<close> (bodies
  missing) are the decoder at the width of the value's type.
\<close>

definition ReadVariableWidthU ::
  "bool \<Rightarrow> bool list \<Rightarrow> nat \<Rightarrow> ('a::len word \<times> bool list) option" where
  "ReadVariableWidthU truncate_last stream chunk_length =
     (case ReadVariableWidth_loop truncate_last LENGTH('a) chunk_length 0 0 stream of
        None \<Rightarrow> None
      | Some (val, stream1) \<Rightarrow> Some (ucast val, stream1))"

text \<open>
  Modelled from the spec: \<open>ReadVariableWidthS8\<close>, \<open>S16\<close>, \<open>S32\<close> and \<open>S64\<close> (bodies
  missing). Section 4.3: "signed callers first zigzag-transform with a chosen block
  exponent, then treat the result as unsigned of the same W"; so reading decodes the
  unsigned value of that width and maps it back with the block \<open>DecodeZigZag\<close>.
\<close>

definition ReadVariableWidthS ::
  "bool \<Rightarrow> bool list \<Rightarrow> nat \<Rightarrow> nat \<Rightarrow> ('a::len word \<times> bool list) option" where
  "ReadVariableWidthS truncate_last stream chunk_length zigzag_exponent =
     (case ReadVariableWidth_loop truncate_last LENGTH('a) chunk_length 0 0 stream of
        None \<Rightarrow> None
      | Some (encoded, stream1) \<Rightarrow>
          (case DecodeZigZag_block encoded zigzag_exponent of
             None \<Rightarrow> None
           | Some decoded \<Rightarrow> Some (ucast decoded, stream1)))"

text \<open>The operations the header names, as instances at the four widths.\<close>

abbreviation WriteVariableWidthU8 :: "bool \<Rightarrow> bool list \<Rightarrow> 8 word \<Rightarrow> nat \<Rightarrow> bool list option" where
  "WriteVariableWidthU8 \<equiv> WriteVariableWidthU"

abbreviation WriteVariableWidthU16 :: "bool \<Rightarrow> bool list \<Rightarrow> 16 word \<Rightarrow> nat \<Rightarrow> bool list option" where
  "WriteVariableWidthU16 \<equiv> WriteVariableWidthU"

abbreviation WriteVariableWidthU32 :: "bool \<Rightarrow> bool list \<Rightarrow> 32 word \<Rightarrow> nat \<Rightarrow> bool list option" where
  "WriteVariableWidthU32 \<equiv> WriteVariableWidthU"

abbreviation WriteVariableWidthU64 :: "bool \<Rightarrow> bool list \<Rightarrow> 64 word \<Rightarrow> nat \<Rightarrow> bool list option" where
  "WriteVariableWidthU64 \<equiv> WriteVariableWidthU"

abbreviation ReadVariableWidthU8 :: "bool \<Rightarrow> bool list \<Rightarrow> nat \<Rightarrow> (8 word \<times> bool list) option" where
  "ReadVariableWidthU8 \<equiv> ReadVariableWidthU"

abbreviation ReadVariableWidthU16 :: "bool \<Rightarrow> bool list \<Rightarrow> nat \<Rightarrow> (16 word \<times> bool list) option" where
  "ReadVariableWidthU16 \<equiv> ReadVariableWidthU"

abbreviation ReadVariableWidthU32 :: "bool \<Rightarrow> bool list \<Rightarrow> nat \<Rightarrow> (32 word \<times> bool list) option" where
  "ReadVariableWidthU32 \<equiv> ReadVariableWidthU"

abbreviation ReadVariableWidthU64 :: "bool \<Rightarrow> bool list \<Rightarrow> nat \<Rightarrow> (64 word \<times> bool list) option" where
  "ReadVariableWidthU64 \<equiv> ReadVariableWidthU"

abbreviation ReadVariableWidthS8 :: "bool \<Rightarrow> bool list \<Rightarrow> nat \<Rightarrow> nat \<Rightarrow> (8 word \<times> bool list) option" where
  "ReadVariableWidthS8 \<equiv> ReadVariableWidthS"

abbreviation ReadVariableWidthS16 :: "bool \<Rightarrow> bool list \<Rightarrow> nat \<Rightarrow> nat \<Rightarrow> (16 word \<times> bool list) option" where
  "ReadVariableWidthS16 \<equiv> ReadVariableWidthS"

abbreviation ReadVariableWidthS32 :: "bool \<Rightarrow> bool list \<Rightarrow> nat \<Rightarrow> nat \<Rightarrow> (32 word \<times> bool list) option" where
  "ReadVariableWidthS32 \<equiv> ReadVariableWidthS"

abbreviation ReadVariableWidthS64 :: "bool \<Rightarrow> bool list \<Rightarrow> nat \<Rightarrow> nat \<Rightarrow> (64 word \<times> bool list) option" where
  "ReadVariableWidthS64 \<equiv> ReadVariableWidthS"

subsection \<open>The word-packed reader\<close>

text \<open>
  \<open>BitReaderWord64\<close> holds \<open>buffer_\<close> and \<open>pos_\<close> (declared in the header); the position
  is a natural number. \<open>bit_at r i\<close> is bit \<open>i\<close> of the stream: bit \<open>i mod 64\<close> of word
  \<open>i div 64\<close>, the first bit of a word being its lowest.
\<close>

record BitReaderWord64 =
  rd_buffer :: "uint64_t list"
  rd_pos :: nat

definition bit_at :: "BitReaderWord64 \<Rightarrow> nat \<Rightarrow> bool" where
  "bit_at r i = bit (rd_buffer r ! (i div 64)) (i mod 64)"

text \<open>
  Modelled from the spec: \<open>BitReaderWord64::ReachedEnd\<close> (body missing). Section 4.5:
  "ReachedEnd() iff position \<ge> capacity", the capacity being the word count times
  the word width.
\<close>

definition ReachedEnd :: "BitReaderWord64 \<Rightarrow> bool" where
  "ReachedEnd r = (length (rd_buffer r) * 64 \<le> rd_pos r)"

text \<open>
  Modelled from the spec: \<open>BitReaderWord64::OnlyZeroesLeft\<close> (body missing). Section
  4.5: it "returns true whenever ReachedEnd() is true, and may additionally return
  true when all remaining bits are zero". The model returns true in exactly these
  two cases, looking at what is left of the current word and at the words after it;
  the specification leaves open which of the all-zero cases an implementation
  reports.
\<close>

definition OnlyZeroesLeft :: "BitReaderWord64 \<Rightarrow> bool" where
  "OnlyZeroesLeft r =
     (if ReachedEnd r then True
      else
        let index = rd_pos r div 64;
            offset = rd_pos r mod 64
        in drop_bit offset (rd_buffer r ! index) = 0
           \<and> list_all (\<lambda>w. w = 0) (drop (Suc index) (rd_buffer r)))"


section \<open>The block variant as Section 4.2 of the specification words it\<close>

text \<open>
  The reference of the specification, on mathematical integers: \<open>mag = v\<ge>0 ? v : (-v - 1)\<close>,
  \<open>block_num = (mag >> k) << 1 | (v<0 ? 1 : 0)\<close>, \<open>pos = mag\<close> masked to \<open>k\<close> low bits,
  \<open>encode = (block_num << k) + pos\<close>; and for decoding \<open>block_num = encoded >> k\<close>,
  \<open>pos = encoded\<close> masked to \<open>k\<close> bits, the result \<open>-1 - ((block_num>>1)<<k) - pos\<close> if
  \<open>block_num\<close> is odd, else \<open>((block_num>>1)<<k) + pos\<close>.
\<close>

definition spec_EncodeZigZag_block :: "int \<Rightarrow> nat \<Rightarrow> int" where
  "spec_EncodeZigZag_block v k =
     (let mag = (if v \<ge> 0 then v else - v - 1);
          block_num = push_bit 1 (drop_bit k mag) OR (if v < 0 then 1 else 0);
          pos = take_bit k mag
      in push_bit k block_num + pos)"

definition spec_DecodeZigZag_block :: "int \<Rightarrow> nat \<Rightarrow> int" where
  "spec_DecodeZigZag_block encoded k =
     (let block_num = drop_bit k encoded;
          pos = take_bit k encoded
      in if odd block_num then - 1 - push_bit k (drop_bit 1 block_num) - pos
         else push_bit k (drop_bit 1 block_num) + pos)"

section \<open>Bit-level descriptions used in the proofs\<close>

text \<open>
  \<open>uval\<close> is the magnitude \<open>val >= 0 ? val : -val - 1\<close> of the encoder, \<open>enc_bits\<close> the
  encoder's result with its additions written as \<open>OR\<close>, and \<open>dec_mag\<close> the magnitude
  the decoder rebuilds.
\<close>

definition uval :: "64 word \<Rightarrow> 64 word" where
  "uval v = (if bit v 63 then NOT v else v)"

definition enc_bits :: "64 word \<Rightarrow> nat \<Rightarrow> 64 word" where
  "enc_bits v k =
     push_bit k (push_bit 1 (drop_bit k (uval v)) OR of_bool (bit v 63)) OR take_bit k (uval v)"

definition dec_mag :: "64 word \<Rightarrow> nat \<Rightarrow> 64 word" where
  "dec_mag val k = push_bit k (drop_bit 1 (drop_bit k val)) OR take_bit k val"

section \<open>Facts about 64-bit words\<close>

lemma word_sle_0_iff: "(0 \<le>s (v::64 word)) = (\<not> bit v 63)"
  using bit_last_iff [of v] by (simp add: word_sle_eq not_less)

lemma sint_nonneg_iff: "(0 \<le> sint (v::64 word)) = (\<not> bit v 63)"
  using bit_last_iff [of v] by (simp add: not_less)

lemma minus_1_minus: "- 1 - (v::'a::len word) = NOT v"
  by (simp add: not_eq_complement)

lemma minus_minus_1: "- (v::'a::len word) - 1 = NOT v"
  by (simp add: not_eq_complement)

lemma and_1_neq_0_iff: "((x::'a::len word) AND 1 \<noteq> 0) = bit x 0"
  by (simp add: and_one_eq bit_0 mod_2_eq_odd)

lemma bit_word64_double: "bit ((v::64 word) * 2) n \<longleftrightarrow> 0 < n \<and> n < 64 \<and> bit v (n - 1)"
  using bit_push_bit_iff [of 1 v n] by (auto dest: bit_imp_le_length)

lemma bit_int_double: "bit ((x::int) * 2) n \<longleftrightarrow> 0 < n \<and> bit x (n - 1)"
  using bit_push_bit_iff [of 1 x n] by auto

lemma signed_drop_bit_63: "signed_drop_bit 63 (v::64 word) = (if bit v 63 then - 1 else 0)"
  by (rule bit_word_eqI) (auto simp: bit_simps not_le)

lemma bit_less_63: "\<not> bit (w::64 word) 63 \<Longrightarrow> bit w n \<Longrightarrow> n < 63"
  using bit_imp_le_length [of w n] by (cases "n = 63") auto

lemma sint_eq_uint: "\<not> bit (w::64 word) 63 \<Longrightarrow> sint w = uint w"
  by (rule bit_eqI) (auto simp: bit_simps min_def dest: bit_less_63)

lemma sint_NOT:
  assumes "\<not> bit (w::64 word) 63"
  shows "sint (NOT w) = - 1 - uint w"
proof -
  have "bit (sint (NOT w)) n = bit (NOT (uint w)) n" for n
    using assms
    by (cases "n = 63") (auto simp: bit_simps min_def dest: bit_less_63 bit_imp_le_length)
  then have "sint (NOT w) = NOT (uint w)"
    by (rule bit_eqI)
  then show ?thesis
    by (simp add: not_int_def)
qed

section \<open>GetLowerBits\<close>

lemma sint_2_power: "n < 31 \<Longrightarrow> sint (2 ^ n :: 32 word) = 2 ^ n"
  by (rule bit_eqI) (auto simp: bit_simps min_def)

lemma int_mask:
  assumes "n < 31"
  shows "int_shl 1 n = Some (2 ^ n)" and "int_minus (2 ^ n) 1 = Some (mask n)"
proof -
  have p: "(2::int) ^ n < 2 ^ 31"
    using assms by (intro power_strict_increasing) simp_all
  then show "int_shl 1 n = Some (2 ^ n)"
    using assms by (simp add: int_shl_def)
  have "1 \<le> (2::int) ^ n"
    by (rule one_le_power) simp
  then have "- 2147483648 \<le> (2::int) ^ n - 1"
    by linarith
  moreover from p have "(2::int) ^ n - 1 < 2147483648"
    by simp
  ultimately show "int_minus (2 ^ n) 1 = Some (mask n)"
    by (simp add: int_minus_def sint_2_power [OF assms] mask_eq_exp_minus_1)
qed

lemma GetLowerBits_take_bit:
  assumes "n \<le> LENGTH('a)"
  shows "GetLowerBits (x::'a::len word) n = Some (take_bit n x)"
proof (cases "LENGTH('a) < 32")
  case False
  then show ?thesis
    using assms by (auto simp: GetLowerBits_def shl_def take_bit_eq_mask mask_eq_exp_minus_1)
next
  case True
  show ?thesis
  proof (cases "n = LENGTH('a)")
    case True
    then show ?thesis
      by (simp add: GetLowerBits_def)
  next
    case False
    with assms True have n: "n < 31" "n < LENGTH('a)"
      by simp_all
    have "x AND ucast (mask n :: 32 word) = take_bit n x"
      using n True by (intro bit_word_eqI) (auto simp: bit_simps)
    then show ?thesis
      using True False by (simp add: GetLowerBits_def int_mask [OF n(1)])
  qed
qed

text \<open>
  C5. \<open>GetLowerBits (x, n)\<close> with \<open>n\<close> the width of \<open>T\<close> returns \<open>x\<close>; with \<open>n\<close> below the
  width it returns \<open>x\<close> with every bit but the \<open>n\<close> lowest cleared; and for no \<open>n\<close> up
  to the width, the width itself included, does it perform a shift that C++ leaves
  undefined: it returns a result. (Above the width a narrow \<open>T\<close>, shifted as an
  \<open>int\<close>, still gives a result: the witness has \<open>uint8_t\<close> at 9 bits.)
\<close>

theorem GetLowerBits_masks:
  fixes x :: "'a::len word"
  shows "GetLowerBits x LENGTH('a) = Some x
    \<and> (\<forall>n<LENGTH('a). \<exists>y. GetLowerBits x n = Some y \<and> y = take_bit n x
          \<and> (\<forall>i. bit y i = (i < n \<and> bit x i)))
    \<and> (\<forall>n\<le>LENGTH('a). GetLowerBits x n \<noteq> None)"
  by (simp add: GetLowerBits_take_bit bit_take_bit_iff)

theorem GetLowerBits_masks_witness:
  "GetLowerBits (0xAB :: 8 word) 8 = Some 0xAB
   \<and> GetLowerBits (0xAB :: 8 word) 4 = Some 0x0B
   \<and> GetLowerBits (0xAB :: 8 word) 9 = Some 0xAB
   \<and> GetLowerBits (0xAB :: 64 word) 64 = Some 0xAB
   \<and> GetLowerBits (0xAB :: 64 word) 4 = Some 0x0B"
  using GetLowerBits_masks [of "0xAB :: 8 word"] GetLowerBits_masks [of "0xAB :: 64 word"]
  by (simp add: GetLowerBits_def shl_def int_shl_def int_minus_def)

section \<open>ZigZag codec: round trip\<close>

lemma shr1_not_shl1: "bit v 63 \<Longrightarrow> NOT (drop_bit 1 (NOT (push_bit 1 v))) = (v :: 64 word)"
proof (rule bit_word_eqI)
  fix n assume "n < LENGTH(64)" and v: "bit v 63"
  then have "n < 63 \<or> n = 63" by auto
  then show "bit (NOT (drop_bit 1 (NOT (push_bit 1 v)))) n = bit v n"
    using v by (auto simp: bit_not_iff bit_drop_bit_eq bit_word64_double)
qed

lemma shr1_shl1: "\<not> bit v 63 \<Longrightarrow> drop_bit 1 (push_bit 1 v) = (v :: 64 word)"
proof (rule bit_word_eqI)
  fix n assume "n < LENGTH(64)" and v: "\<not> bit v 63"
  then have "n < 63 \<or> n = 63" by auto
  then show "bit (drop_bit 1 (push_bit 1 v)) n = bit v n"
    using v by (auto simp: bit_drop_bit_eq bit_word64_double)
qed

lemma DecodeZigZag_EncodeZigZag: "DecodeZigZag (EncodeZigZag v) = v"
proof (cases "bit v 63")
  case True
  have e: "EncodeZigZag v = NOT (push_bit 1 v)"
    by (simp add: EncodeZigZag_def signed_drop_bit_63 True)
  have "bit (EncodeZigZag v) 0"
    unfolding e by (simp add: bit_not_iff bit_word64_double)
  then have "DecodeZigZag (EncodeZigZag v) = NOT (drop_bit 1 (NOT (push_bit 1 v)))"
    by (simp add: DecodeZigZag_def and_1_neq_0_iff minus_1_minus e)
  then show ?thesis
    by (simp only: shr1_not_shl1 [OF True])
next
  case False
  have e: "EncodeZigZag v = push_bit 1 v"
    by (simp add: EncodeZigZag_def signed_drop_bit_63 False)
  have "\<not> bit (EncodeZigZag v) 0"
    unfolding e by (simp add: bit_word64_double)
  then have "DecodeZigZag (EncodeZigZag v) = drop_bit 1 (push_bit 1 v)"
    by (simp add: DecodeZigZag_def and_1_neq_0_iff e)
  then show ?thesis
    by (simp only: shr1_shl1 [OF False])
qed

lemma uval_63: "\<not> bit (uval v) 63"
  by (simp add: uval_def bit_not_iff)

lemma bit_uval_less: "bit (uval v) n \<Longrightarrow> n < 63"
  using uval_63 by (rule bit_less_63)

lemma bit_enc_bits:
  "k < 64 \<Longrightarrow> bit (enc_bits v k) n \<longleftrightarrow>
     n < 64 \<and> (if n < k then bit (uval v) n
               else if n = k then bit v 63 else bit (uval v) (n - 1))"
  by (auto simp: enc_bits_def bit_simps bit_word64_double bit_0 dest: bit_imp_le_length)

lemma bit_dec_mag:
  "k < 64 \<Longrightarrow> bit (dec_mag val k) n \<longleftrightarrow> (if n < k then bit val n else bit val (Suc n))"
  by (auto simp: dec_mag_def bit_simps dest: bit_imp_le_length)

lemma EncodeZigZag_block_eq:
  assumes "k < 64"
  shows "EncodeZigZag_block v k = Some (enc_bits v k)"
proof -
  let ?u = "uval v"
  let ?s = "of_bool (bit v 63) :: 64 word"
  have 1: "push_bit 1 (drop_bit k ?u) + ?s = push_bit 1 (drop_bit k ?u) OR ?s"
    by (rule disjunctive_add_eq_or, rule bit_word_eqI)
      (auto simp: bit_simps bit_word64_double bit_0)
  have 2: "push_bit k (push_bit 1 (drop_bit k ?u) OR ?s) + take_bit k ?u = enc_bits v k"
    unfolding enc_bits_def
    by (rule disjunctive_add_eq_or, rule bit_word_eqI) (auto simp: bit_simps)
  have 3: "(if 0 \<le>s v then v else - v - 1) = ?u"
    by (simp add: word_sle_0_iff uval_def minus_minus_1)
  have 4: "(if 0 \<le>s v then 0 else 1) = ?s"
    by (simp add: word_sle_0_iff)
  show ?thesis
    unfolding EncodeZigZag_block_def Let_def 3 4 1
    using assms 2 by (simp add: GetLowerBits_take_bit)
qed

lemma DecodeZigZag_block_eq:
  assumes "k < 64"
  shows "DecodeZigZag_block val k
           = Some (if bit val k then NOT (dec_mag val k) else dec_mag val k)"
proof -
  have 1: "push_bit k (drop_bit 1 (drop_bit k val)) + take_bit k val = dec_mag val k"
    unfolding dec_mag_def
    by (rule disjunctive_add_eq_or, rule bit_word_eqI) (auto simp: bit_simps)
  have 2: "- 1 - push_bit k (drop_bit 1 (drop_bit k val)) - take_bit k val
             = NOT (dec_mag val k)"
    unfolding 1 [symmetric] by (simp add: not_eq_complement)
  have 3: "(drop_bit k val AND 1 \<noteq> 0) = bit val k"
    by (simp add: and_1_neq_0_iff bit_simps)
  show ?thesis
    unfolding DecodeZigZag_block_def Let_def 3
    using assms 1 2 by (simp add: GetLowerBits_take_bit)
qed

lemma dec_mag_enc_bits: "k < 64 \<Longrightarrow> dec_mag (enc_bits v k) k = uval v"
  by (rule bit_word_eqI) (auto simp: bit_dec_mag bit_enc_bits dest: bit_uval_less)

lemma DecodeZigZag_block_EncodeZigZag_block:
  "k < 64 \<Longrightarrow> DecodeZigZag_block (enc_bits v k) k = Some v"
  by (simp add: DecodeZigZag_block_eq dec_mag_enc_bits bit_enc_bits uval_def)

text \<open>
  C2. Decoding the plain zigzag encoding of any \<open>int64_t\<close> gives the value back, and for
  every block exponent \<open>k\<close> in \<open>[0,63]\<close> the block encoder returns a value that the block
  decoder, with the same \<open>k\<close>, maps back to the original.
\<close>

theorem ZigZag_roundtrip:
  "DecodeZigZag (EncodeZigZag v) = v
   \<and> (\<forall>k<64. \<exists>e. EncodeZigZag_block v k = Some e \<and> DecodeZigZag_block e k = Some v)"
  by (simp add: DecodeZigZag_EncodeZigZag EncodeZigZag_block_eq
      DecodeZigZag_block_EncodeZigZag_block)

theorem ZigZag_roundtrip_witness:
  "DecodeZigZag (EncodeZigZag (- 3)) = - 3
   \<and> EncodeZigZag_block (- 3) 2 = Some 6 \<and> DecodeZigZag_block 6 2 = Some (- 3)"
proof -
  have e: "EncodeZigZag_block (- 3) 2 = Some 6"
    by (simp add: EncodeZigZag_block_def GetLowerBits_def shl_def word_sle_eq)
  have "(2::nat) < 64"
    by simp
  with ZigZag_roundtrip [of "- 3"]
  have "DecodeZigZag (EncodeZigZag (- 3)) = - 3
    \<and> (\<exists>e. EncodeZigZag_block (- 3) 2 = Some e \<and> DecodeZigZag_block e 2 = Some (- 3))"
    by blast
  with e show ?thesis
    by auto
qed

section \<open>ZigZag codec: the block variant against the specification's reference\<close>

lemma mag_uint: "(if 0 \<le> sint v then sint v else - sint v - 1) = uint (uval v)"
proof (cases "bit v 63")
  case True
  have "sint (NOT (NOT v)) = - 1 - uint (NOT v)"
    using True by (intro sint_NOT) (simp add: bit_not_iff)
  moreover have "\<not> uint (NOT v) \<le> - 1"
    using uint_ge_0 [of "NOT v"] by linarith
  ultimately show ?thesis
    using True by (simp add: sint_nonneg_iff uval_def)
next
  case False
  then show ?thesis
    by (simp add: sint_nonneg_iff uval_def sint_eq_uint)
qed

lemma spec_EncodeZigZag_block_eq:
  assumes "k < 64"
  shows "spec_EncodeZigZag_block (sint v) k = uint (enc_bits v k)"
proof -
  let ?m = "uint (uval v)"
  let ?s = "of_bool (bit v 63) :: int"
  have s: "(if sint v < 0 then 1 else 0) = ?s"
    using sint_nonneg_iff [of v] by (simp add: not_le [symmetric])
  have "push_bit k (push_bit 1 (drop_bit k ?m) OR ?s) + take_bit k ?m
      = push_bit k (push_bit 1 (drop_bit k ?m) OR ?s) OR take_bit k ?m"
    by (rule disjunctive_add_eq_or, rule bit_eqI) (auto simp: bit_simps)
  also have "\<dots> = uint (enc_bits v k)"
    using assms
    by (intro bit_eqI)
      (auto simp: bit_simps bit_enc_bits bit_int_double bit_0 dest: bit_uval_less)
  finally show ?thesis
    unfolding spec_EncodeZigZag_block_def Let_def mag_uint s .
qed

lemma spec_DecodeZigZag_block_eq:
  assumes "k < 64"
  shows "spec_DecodeZigZag_block (uint u) k
           = sint (if bit u k then NOT (dec_mag u k) else dec_mag u k)"
proof -
  let ?X = "push_bit k (drop_bit 1 (drop_bit k (uint u))) + take_bit k (uint u)"
  have "?X = push_bit k (drop_bit 1 (drop_bit k (uint u))) OR take_bit k (uint u)"
    by (rule disjunctive_add_eq_or, rule bit_eqI) (auto simp: bit_simps)
  also have "\<dots> = uint (dec_mag u k)"
    using assms by (intro bit_eqI) (auto simp: bit_simps bit_dec_mag dest: bit_imp_le_length)
  finally have X: "?X = uint (dec_mag u k)" .
  have n63: "\<not> bit (dec_mag u k) 63"
    using assms by (auto simp: bit_dec_mag dest: bit_imp_le_length)
  note s1 = sint_eq_uint [OF n63] and s2 = sint_NOT [OF n63]
  have o: "odd (drop_bit k (uint u)) = bit u k"
    using assms by (simp add: bit_uint_iff flip: bit_iff_odd_drop_bit)
  have m: "- 1 - push_bit k (drop_bit 1 (drop_bit k (uint u))) - take_bit k (uint u)
             = - 1 - ?X"
    by simp
  show ?thesis
    unfolding spec_DecodeZigZag_block_def Let_def o m X
    by (simp add: s1 s2)
qed

text \<open>
  C4. For every \<open>int64_t\<close> \<open>v\<close>, every \<open>uint64_t\<close> \<open>u\<close> and every block exponent \<open>k\<close> in
  \<open>[0,63]\<close>, the unsigned value of \<open>EncodeZigZag(v, k)\<close> is what the specification's
  reference computes from the signed value of \<open>v\<close>, and the signed value of
  \<open>DecodeZigZag(u, k)\<close> is what the reference inverse computes from the unsigned value
  of \<open>u\<close>; the reference works on unbounded integers.
\<close>

theorem ZigZag_block_refines_spec:
  "k < 64 \<Longrightarrow>
     map_option uint (EncodeZigZag_block v k) = Some (spec_EncodeZigZag_block (sint v) k)
   \<and> map_option sint (DecodeZigZag_block u k) = Some (spec_DecodeZigZag_block (uint u) k)"
  by (simp add: EncodeZigZag_block_eq DecodeZigZag_block_eq
      spec_EncodeZigZag_block_eq spec_DecodeZigZag_block_eq)

theorem ZigZag_block_refines_spec_witness:
  "(5::nat) < 64
   \<and> map_option uint (EncodeZigZag_block (- 9223372036854775808) 5)
       = Some (spec_EncodeZigZag_block (sint (- 9223372036854775808 :: 64 word)) 5)
   \<and> map_option sint (DecodeZigZag_block 18446744073709551615 5)
       = Some (spec_DecodeZigZag_block (uint (18446744073709551615 :: 64 word)) 5)"
  using ZigZag_block_refines_spec [of 5 "- 9223372036854775808" 18446744073709551615]
  by simp

section \<open>ZigZag codec: block exponent zero\<close>

text \<open>
  C9. With block exponent 0 the block encoder returns what the plain encoder returns,
  for every \<open>int64_t\<close>, and the block decoder what the plain decoder returns, for every
  \<open>uint64_t\<close>.
\<close>

theorem ZigZag_block_0:
  "EncodeZigZag_block v 0 = Some (EncodeZigZag v)
   \<and> DecodeZigZag_block u 0 = Some (DecodeZigZag u)"
proof -
  have "enc_bits v 0 = EncodeZigZag v"
    unfolding EncodeZigZag_def signed_drop_bit_63
    by (rule bit_word_eqI) (auto simp: bit_enc_bits bit_simps bit_word64_double uval_def)
  moreover have "dec_mag u 0 = drop_bit 1 u"
    by (rule bit_word_eqI) (auto simp: bit_dec_mag bit_simps)
  ultimately show ?thesis
    by (simp add: EncodeZigZag_block_eq DecodeZigZag_block_eq DecodeZigZag_def
        and_1_neq_0_iff minus_1_minus)
qed

section \<open>PadToWord\<close>

lemma pad_dvd:
  assumes "0 < (N::nat)"
  shows "N dvd n + (N - n mod N)"
proof -
  define q r where "q = n div N" and "r = n mod N"
  have n: "n = q * N + r" and r: "r \<le> N"
    using assms by (simp_all add: q_def r_def less_imp_le)
  have "q * N + r + (N - r) = (q + 1) * N"
    using r by simp
  then have "N dvd q * N + r + (N - r)"
    by (metis dvd_triv_right)
  then show ?thesis
    by (simp add: q_def r_def)
qed

lemma PadToWord_appends:
  assumes "0 < N"
  shows "\<exists>m<N. PadToWord N s = Some (s @ replicate m CHR ''0'')
           \<and> N dvd length (s @ replicate m CHR ''0'')"
proof (cases "length s mod N = 0")
  case True
  then have "PadToWord N s = Some (s @ replicate 0 CHR ''0'')"
    and "N dvd length (s @ replicate 0 CHR ''0'')"
    using assms by (auto simp: PadToWord_def)
  then show ?thesis
    using assms by blast
next
  case False
  let ?m = "N - length s mod N"
  have "?m < N"
    using False assms by simp
  moreover have "PadToWord N s = Some (s @ replicate ?m CHR ''0'')"
    using False assms by (simp add: PadToWord_def)
  moreover have "N dvd length (s @ replicate ?m CHR ''0'')"
    using pad_dvd [OF assms, of "length s"] by simp
  ultimately show ?thesis
    by blast
qed

text \<open>
  C7. For every string \<open>s\<close> and every \<open>N \<ge> 1\<close>, \<open>PadToWord<N>(s)\<close> is \<open>s\<close> followed by
  \<open>m\<close> characters \<open>0\<close> with \<open>m < N\<close> (nothing is put in front and no character of \<open>s\<close>
  changes), and its length is a multiple of \<open>N\<close>; so \<open>m\<close> is the least number of
  characters that reaches a multiple. \<open>PadToWord<8>("101")\<close> is \<open>"10100000"\<close>.
\<close>

theorem PadToWord_zeroes_at_end:
  "1 \<le> N \<Longrightarrow>
     (\<exists>m<N. PadToWord N s = Some (s @ replicate m CHR ''0'')
        \<and> N dvd length (s @ replicate m CHR ''0''))
     \<and> PadToWord 8 ''101'' = Some ''10100000''"
proof -
  assume "1 \<le> N"
  then have "0 < N"
    by simp
  moreover have "PadToWord 8 ''101'' = Some ''10100000''"
    by code_simp
  ultimately show ?thesis
    using PadToWord_appends [of N s] by blast
qed

theorem PadToWord_zeroes_at_end_witness:
  "(1::nat) \<le> 4 \<and> PadToWord 4 ''10101'' = Some ''10101000''
   \<and> PadToWord 8 ''101'' = Some ''10100000''"
proof -
  have p: "PadToWord 4 ''10101'' = Some ''10101000''"
    by code_simp
  have "(1::nat) \<le> 4"
    by simp
  from PadToWord_zeroes_at_end [OF this, of "''10101''"] p show ?thesis
    by simp
qed

section \<open>NumBitsToNumWords and the size of the writer's data\<close>

lemma ceil_div_nat_if:
  assumes "0 < (b::nat)"
  shows "(a + (b - 1)) div b = (if a mod b = 0 then a div b else a div b + 1)"
proof -
  define q r where "q = a div b" and "r = a mod b"
  have a: "a = q * b + r" and r: "r < b"
    using assms by (simp_all add: q_def r_def)
  have "(a + (b - 1)) div b = (q * b + (r + (b - 1))) div b"
    by (simp add: a add.assoc)
  also have "\<dots> = q + (r + (b - 1)) div b"
    by (rule div_mult_self3) (use assms in simp)
  also have "(r + (b - 1)) div b = (if r = 0 then 0 else 1)"
  proof (cases "r = 0")
    case True
    then show ?thesis
      using assms by simp
  next
    case False
    then have "r + (b - 1) = b + (r - 1)" and "r - 1 < b"
      using r by simp_all
    then have "(r + (b - 1)) div b = (r - 1) div b + 1" and "(r - 1) div b = 0"
      using assms by (simp_all only: div_add_self1 div_less)
    then show ?thesis
      using False by simp
  qed
  finally show ?thesis
    by (simp add: q_def r_def)
qed

lemma ceil_div_nat:
  assumes "0 < (b::nat)"
  shows "(a + (b - 1)) div b = nat \<lceil>real a / real b\<rceil>"
proof -
  have "\<lceil>real a / real b\<rceil> = - (- int a div int b)"
    using ceiling_divide_eq_div [of "int a" "int b"] by simp
  also have "\<dots> = (if int a mod int b = 0 then int a div int b else int a div int b + 1)"
    using assms by (simp add: zdiv_zminus1_eq_if)
  also have "\<dots> = int (if a mod b = 0 then a div b else a div b + 1)"
  proof -
    have "(int a mod int b = 0) = (a mod b = 0)"
      by (metis of_nat_mod of_nat_eq_0_iff)
    then show ?thesis
      by (simp add: zdiv_int)
  qed
  finally show ?thesis
    using ceil_div_nat_if [OF assms, of a] by simp
qed

lemma NumBitsToNumWords_ceil:
  assumes N: "N \<noteq> 0" and b: "unat num_bits + (unat N - 1) < 2 ^ 64"
  shows "\<exists>r. NumBitsToNumWords N num_bits = Some r
           \<and> unat r = nat \<lceil>real (unat num_bits) / real (unat N)\<rceil>"
proof -
  have N0: "0 < unat N"
    using N by (simp add: unat_gt_0)
  have 1: "unat (N - 1) = unat N - 1"
    using N by (rule unat_minus_one)
  have "unat num_bits + unat (N - 1) < 2 ^ LENGTH(64)"
    using b by (simp add: 1)
  then have 2: "unat (num_bits + (N - 1)) = unat num_bits + unat (N - 1)"
    by (rule unat_add_lem [THEN iffD1])
  have "unat ((num_bits + (N - 1)) div N) = (unat num_bits + (unat N - 1)) div unat N"
    by (simp only: unat_div 1 2)
  also have "\<dots> = nat \<lceil>real (unat num_bits) / real (unat N)\<rceil>"
    using N0 by (rule ceil_div_nat)
  finally show ?thesis
    using N by (simp add: NumBitsToNumWords_def)
qed

lemma length_GetData: "length (GetData w) = 8 * length (wr_buffer w)"
proof -
  have "length (concat (map word_bytes b)) = 8 * length b" for b
    by (induction b) (simp_all add: word_bytes_def)
  then show ?thesis
    by (simp add: GetData_def)
qed

text \<open>
  C8, as stated, fails where the addition \<open>num_bits + (N - 1)\<close> wraps around:
  \<open>NumBitsToNumWords<8>\<close> of the greatest \<open>size_t\<close> is 0, not \<open>2 ^ 61\<close>.
\<close>

theorem NumBitsToNumWords_wraps:
  "NumBitsToNumWords 8 18446744073709551615 = Some 0
   \<and> nat \<lceil>real (unat (18446744073709551615 :: size_t)) / real (unat (8 :: size_t))\<rceil>
       = 2305843009213693952"
  by (simp add: NumBitsToNumWords_def)

text \<open>
  C8, amended. For every \<open>N \<ge> 1\<close> and every bit count with \<open>num_bits + (N - 1)\<close> below
  \<open>2 ^ 64\<close> (no wrap-around of \<open>size_t\<close>), \<open>NumBitsToNumWords<N>(num_bits)\<close> is
  \<open>ceil(num_bits / N)\<close>. So for a writer with at most \<open>2 ^ 64 - 8\<close> bits written
  \<open>GetDataSizeBytes()\<close> is \<open>ceil(b / 8)\<close>, and when the word array holds that many
  bytes \<open>GetDataCopy()\<close> is exactly that many bytes, the first ones of the word array.
\<close>

theorem NumBitsToNumWords_ceil_without_wrap:
  "(N \<noteq> 0 \<and> unat num_bits + (unat N - 1) < 2 ^ 64 \<longrightarrow>
      (\<exists>r. NumBitsToNumWords N num_bits = Some r
         \<and> unat r = nat \<lceil>real (unat num_bits) / real (unat N)\<rceil>))
   \<and> (unat (GetNumBits w) + 7 < 2 ^ 64 \<longrightarrow>
      (\<exists>r. GetDataSizeBytes w = Some r
         \<and> unat r = nat \<lceil>real (unat (GetNumBits w)) / 8\<rceil>
         \<and> (unat r \<le> 8 * length (wr_buffer w) \<longrightarrow>
              (\<exists>bytes. GetDataCopy w = Some bytes \<and> length bytes = unat r
                 \<and> bytes = take (unat r) (GetData w)))))"
proof (intro conjI impI)
  assume "N \<noteq> 0 \<and> unat num_bits + (unat N - 1) < 2 ^ 64"
  then show "\<exists>r. NumBitsToNumWords N num_bits = Some r
         \<and> unat r = nat \<lceil>real (unat num_bits) / real (unat N)\<rceil>"
    by (intro NumBitsToNumWords_ceil) simp_all
next
  assume "unat (GetNumBits w) + 7 < 2 ^ 64"
  then have "unat (GetNumBits w) + (unat (8 :: size_t) - 1) < 2 ^ 64"
    by simp
  with NumBitsToNumWords_ceil [of 8 "GetNumBits w"]
  obtain r where r: "NumBitsToNumWords 8 (GetNumBits w) = Some r"
    and c: "unat r = nat \<lceil>real (unat (GetNumBits w)) / real (unat (8 :: size_t))\<rceil>"
    by auto
  have "GetDataSizeBytes w = Some r"
    by (simp add: GetDataSizeBytes_def r)
  moreover from c have "unat r = nat \<lceil>real (unat (GetNumBits w)) / 8\<rceil>"
    by simp
  moreover have "\<exists>bytes. GetDataCopy w = Some bytes \<and> length bytes = unat r
      \<and> bytes = take (unat r) (GetData w)"
    if "unat r \<le> 8 * length (wr_buffer w)"
    using that by (simp add: GetDataCopy_def GetDataSizeBytes_def r length_GetData)
  ultimately show "\<exists>r. GetDataSizeBytes w = Some r
         \<and> unat r = nat \<lceil>real (unat (GetNumBits w)) / 8\<rceil>
         \<and> (unat r \<le> 8 * length (wr_buffer w) \<longrightarrow>
              (\<exists>bytes. GetDataCopy w = Some bytes \<and> length bytes = unat r
                 \<and> bytes = take (unat r) (GetData w)))"
    by blast
qed

theorem NumBitsToNumWords_ceil_without_wrap_witness:
  "NumBitsToNumWords 8 9 = Some 2
   \<and> nat \<lceil>real (unat (9 :: size_t)) / real (unat (8 :: size_t))\<rceil> = 2
   \<and> GetDataSizeBytes \<lparr>wr_buffer = [511], wr_end = 9\<rparr> = Some 2
   \<and> GetDataCopy \<lparr>wr_buffer = [511], wr_end = 9\<rparr> = Some [255, 1]"
  using NumBitsToNumWords_ceil_without_wrap
    [of 8 9 "\<lparr>wr_buffer = [511], wr_end = 9\<rparr>"]
  by (simp add: NumBitsToNumWords_def GetDataSizeBytes_def GetNumBits_def GetDataCopy_def
      GetData_def word_bytes_def upt_rec drop_bit_eq_div)

section \<open>BufferToStream and StreamToBuffer\<close>

lemma length_bitset_to_string [simp]:
  "length (bitset_to_string (w::'a::len word)) = LENGTH('a)"
  by (simp add: bitset_to_string_def)

lemma list_all_bitset_to_string:
  "list_all (\<lambda>c. c = CHR ''0'' \<or> c = CHR ''1'') (bitset_to_string w)"
  by (auto simp: bitset_to_string_def list_all_iff)

lemma horner_bitset_to_string:
  "horner_sum of_bool 2 (map (\<lambda>c. c = CHR ''1'') (rev (bitset_to_string (w::'a::len word)))) = w"
proof -
  have "map (\<lambda>c. c = CHR ''1'') (rev (bitset_to_string w)) = map (bit w) [0..<LENGTH('a)]"
    by (simp add: bitset_to_string_def rev_map)
  then show ?thesis
    by (simp add: horner_sum_bit_eq_take_bit)
qed

lemma bitset_from_string_at:
  "bitset_from_string (pre @ bitset_to_string (w::'a::len word) @ post) (length pre) LENGTH('a)
     = Inr w"
  by (simp add: bitset_from_string_def list_all_bitset_to_string horner_bitset_to_string)

lemma to_ullong_ucast:
  assumes "LENGTH('a::len) \<le> 64"
  shows "to_ullong (w::'a word) = Inr (ucast w)" and "ucast (ucast w :: 64 word) = w"
proof -
  have "unat w < 2 ^ LENGTH('a)"
    by (rule unsigned_less)
  also have "(2::nat) ^ LENGTH('a) \<le> 2 ^ 64"
    using assms by (intro power_increasing) simp_all
  finally show "to_ullong w = Inr (ucast w)"
    by (simp add: to_ullong_def)
  show "ucast (ucast w :: 64 word) = w"
    using assms by (intro bit_word_eqI) (auto simp: bit_simps)
qed

lemma length_concat_bitsets:
  "length (concat (map bitset_to_string (ws::'a::len word list))) = length ws * LENGTH('a)"
  by (induction ws) simp_all

lemma StreamToBuffer_loop_stop:
  "index < 0 \<Longrightarrow> StreamToBuffer_loop str index acc = Inr acc"
  by (subst StreamToBuffer_loop.simps) simp

lemma StreamToBuffer_loop_step:
  assumes "0 \<le> index"
    and "bitset_from_string str (nat index) LENGTH('a) = Inr (w::'a::len word)"
    and "LENGTH('a) \<le> 64"
  shows "StreamToBuffer_loop str index acc
           = StreamToBuffer_loop str (index - int LENGTH('a)) (acc @ [w])"
  by (subst StreamToBuffer_loop.simps) (simp add: assms to_ullong_ucast)

lemma int_of_size_t_id:
  assumes "n < 2 ^ 31"
  shows "int_of_size_t n = int n"
proof -
  have "int n < 2 ^ 31"
    using assms by (metis of_nat_less_iff of_nat_numeral of_nat_power)
  then have "0 \<le> int n + 2 ^ 31" and "int n + 2 ^ 31 < 2 ^ 32"
    by simp_all
  then have "(int n + 2 ^ 31) mod 2 ^ 32 = int n + 2 ^ 31"
    by (rule mod_pos_pos_trivial)
  then show ?thesis
    by (simp add: int_of_size_t_def)
qed

lemma wrap_int_id: "- (2 ^ 31) \<le> i \<Longrightarrow> i < 2 ^ 31 \<Longrightarrow> wrap_int i = i"
  by (simp add: wrap_int_def)

text \<open>
  The loop, started at the last chunk but \<open>k\<close> chunks of a string of whole chunks,
  appends the first \<open>k\<close> words of that string in reverse order.
\<close>

lemma StreamToBuffer_loop_chunks:
  fixes ws :: "'a::len word list"
  assumes "LENGTH('a) \<le> 64" and "k \<le> length ws"
  shows "StreamToBuffer_loop (concat (map bitset_to_string ws))
           (int (k * LENGTH('a)) - int LENGTH('a)) acc = Inr (acc @ rev (take k ws))"
  using assms(2)
proof (induction k arbitrary: acc)
  case 0
  then show ?case
    by (simp add: StreamToBuffer_loop_stop)
next
  case (Suc k)
  let ?R = "concat (map bitset_to_string ws)"
  let ?pre = "concat (map bitset_to_string (take k ws))"
  let ?post = "concat (map bitset_to_string (drop (Suc k) ws))"
  from Suc.prems have k: "k < length ws"
    by simp
  then have "ws = take k ws @ ws ! k # drop (Suc k) ws"
    by (simp add: id_take_nth_drop)
  then have "?R = concat (map bitset_to_string (take k ws @ ws ! k # drop (Suc k) ws))"
    by simp
  then have R: "?R = ?pre @ bitset_to_string (ws ! k) @ ?post"
    by simp
  have pre: "length ?pre = k * LENGTH('a)"
    using k by (simp add: length_concat_bitsets)
  have "bitset_from_string ?R (k * LENGTH('a)) LENGTH('a) = Inr (ws ! k)"
    unfolding pre [symmetric] by (subst R) (rule bitset_from_string_at)
  then have "StreamToBuffer_loop ?R (int (k * LENGTH('a))) acc
      = StreamToBuffer_loop ?R (int (k * LENGTH('a)) - int LENGTH('a)) (acc @ [ws ! k])"
    by (intro StreamToBuffer_loop_step) (simp_all add: assms(1) del: of_nat_mult)
  moreover have "int (Suc k * LENGTH('a)) - int LENGTH('a) = int (k * LENGTH('a))"
    by simp
  ultimately have "StreamToBuffer_loop ?R (int (Suc k * LENGTH('a)) - int LENGTH('a)) acc
      = StreamToBuffer_loop ?R (int (k * LENGTH('a)) - int LENGTH('a)) (acc @ [ws ! k])"
    by simp
  also have "\<dots> = Inr ((acc @ [ws ! k]) @ rev (take k ws))"
    using k by (intro Suc.IH) simp
  finally show ?case
    using k by (simp add: take_Suc_conv_app_nth)
qed

lemma rev_BufferToStream: "rev (BufferToStream b) = concat (map bitset_to_string (rev b))"
  by (induction b) simp_all

lemma length_BufferToStream:
  "length (BufferToStream (b::'a::len word list)) = length b * LENGTH('a)"
  by (induction b) simp_all

text \<open>
  C10, as stated, fails for a buffer whose stream has \<open>2 ^ 31\<close> characters or more,
  where \<open>static_cast<int>(str.length())\<close> is no longer the length: for \<open>2 ^ 25 + 1\<close>
  words of 64 bits the length \<open>2 ^ 31 + 64\<close> becomes \<open>64 - 2 ^ 31\<close>, the loop starts at
  the index \<open>- 2 ^ 31\<close> and does not run, and the result is the empty buffer.
\<close>

theorem StreamToBuffer_BufferToStream_long:
  "StreamToBuffer (BufferToStream (replicate (2 ^ 25 + 1) (0 :: 64 word)))
     = (Inr [] :: cpp_error + 64 word list)
   \<and> replicate (2 ^ 25 + 1) (0 :: 64 word) \<noteq> []"
proof -
  let ?b = "replicate (2 ^ 25 + 1) (0 :: 64 word)"
  have 1: "length (rev (BufferToStream ?b)) = 2147483712"
    by (simp add: length_BufferToStream)
  have 2: "wrap_int (int_of_size_t 2147483712 - int LENGTH(64)) = - 2147483648"
    by (simp add: wrap_int_def int_of_size_t_def)
  have "StreamToBuffer (BufferToStream ?b) = (Inr [] :: cpp_error + 64 word list)"
    unfolding StreamToBuffer_def Let_def 1 2
    by (simp add: StreamToBuffer_loop_stop)
  moreover have "length ?b \<noteq> length ([] :: 64 word list)"
    by simp
  then have "?b \<noteq> []"
    by metis
  ultimately show ?thesis
    by simp
qed

text \<open>
  C10, amended. For every buffer of unsigned words of a fixed width of at most 64
  bits whose stream is shorter than \<open>2 ^ 31\<close> characters (word count times word
  width), \<open>StreamToBuffer\<close> applied to \<open>BufferToStream\<close> of the buffer returns the
  buffer.
\<close>

theorem StreamToBuffer_BufferToStream:
  fixes b :: "'a::len word list"
  assumes L: "LENGTH('a) \<le> 64" and n: "length b * LENGTH('a) < 2 ^ 31"
  shows "StreamToBuffer (BufferToStream b) = Inr b"
proof -
  let ?n = "length b * LENGTH('a)"
  have 1: "int_of_size_t ?n = int ?n"
    using n by (rule int_of_size_t_id)
  have "int ?n < 2 ^ 31"
    using n by (metis of_nat_less_iff of_nat_numeral of_nat_power)
  moreover have "int LENGTH('a) \<le> 64" and "0 \<le> int ?n" and "0 \<le> int LENGTH('a)"
    using L by simp_all
  ultimately have "- (2 ^ 31) \<le> int ?n - int LENGTH('a)"
    and "int ?n - int LENGTH('a) < 2 ^ 31"
    by (simp_all del: of_nat_mult)
  then have 2: "wrap_int (int ?n - int LENGTH('a)) = int ?n - int LENGTH('a)"
    by (rule wrap_int_id)
  have "StreamToBuffer_loop (concat (map bitset_to_string (rev b)))
           (int (length (rev b) * LENGTH('a)) - int LENGTH('a)) []
          = Inr ([] @ rev (take (length (rev b)) (rev b)))"
    by (rule StreamToBuffer_loop_chunks [OF L]) simp
  then have 3: "StreamToBuffer_loop (rev (BufferToStream b)) (int ?n - int LENGTH('a)) [] = Inr b"
    by (simp add: rev_BufferToStream del: of_nat_mult)
  have 4: "length (rev (BufferToStream b)) = ?n"
    by (simp add: length_BufferToStream)
  show ?thesis
    unfolding StreamToBuffer_def Let_def 4 1 2 3 by simp
qed

theorem StreamToBuffer_BufferToStream_witness:
  "LENGTH(8) \<le> (64::nat) \<and> length [5, 128 :: 8 word] * LENGTH(8) < (2::nat) ^ 31
   \<and> BufferToStream [5, 128 :: 8 word] = ''1010000000000001''
   \<and> StreamToBuffer ''1010000000000001'' = Inr [5, 128 :: 8 word]"
proof -
  have s: "BufferToStream [5, 128 :: 8 word] = ''1010000000000001''"
    by (simp add: bitset_to_string_def upt_rec)
  have "LENGTH(8) \<le> (64::nat)" and "length [5, 128 :: 8 word] * LENGTH(8) < (2::nat) ^ 31"
    by simp_all
  from StreamToBuffer_BufferToStream [OF this] s show ?thesis
    by simp
qed

section \<open>Variable-width chunked encoding: one step of each loop\<close>

lemma WriteVariableWidth_loop_step:
  assumes "emitted < W"
  shows "WriteVariableWidth_loop tr W C val emitted s =
     (let n = chunk_bits tr W C emitted; s1 = s @ map (bit val) [0..<n]
      in if W \<le> emitted + n then Some s1
         else if drop_bit C val \<noteq> 0
              then WriteVariableWidth_loop tr W C (drop_bit C val) (emitted + n) (s1 @ [True])
              else Some (s1 @ [False]))"
  using assms
  by (subst WriteVariableWidth_loop.simps) (simp add: Let_def WriteBits_def)

lemma WriteVariableWidth_loop_done:
  "\<not> emitted < W \<Longrightarrow> WriteVariableWidth_loop tr W C val emitted s = Some s"
  by (subst WriteVariableWidth_loop.simps) simp

lemma ReadVariableWidth_loop_done:
  "\<not> consumed < W \<Longrightarrow> ReadVariableWidth_loop tr W C acc consumed s = Some (acc, s)"
  by (subst ReadVariableWidth_loop.simps) simp

lemma ReadBits_Suc_0:
  "ReadBits s (Suc 0) = (case s of [] \<Rightarrow> (0, 0, []) | b # s2 \<Rightarrow> (of_bool b, 1, s2))"
  by (cases s) (simp_all add: ReadBits_def)

lemma ReadVariableWidth_loop_step:
  assumes "consumed < W"
  shows "ReadVariableWidth_loop tr W C acc consumed s =
     (let n = chunk_bits tr W C consumed
      in if length s < n then None
         else
           let acc1 = acc OR push_bit consumed (horner_sum of_bool 2 (take n s))
           in if W \<le> consumed + n then Some (acc1, drop n s)
              else (case drop n s of
                      [] \<Rightarrow> None
                    | b # s2 \<Rightarrow>
                        if b then ReadVariableWidth_loop tr W C acc1 (consumed + n) s2
                        else Some (acc1, s2)))"
proof -
  define n where "n = chunk_bits tr W C consumed"
  have 1: "ReadBits s n = (horner_sum of_bool 2 (take n s), min (length s) n, drop n s)"
    by (simp add: ReadBits_def)
  have 2: "(min (length s) n \<noteq> n) = (length s < n)"
    by auto
  show ?thesis
    using assms
    by (subst ReadVariableWidth_loop.simps)
      (simp add: Let_def n_def [symmetric] 1 2 ReadBits_Suc_0 split: list.split)
qed

lemma ReadVariableWidth_loop_short:
  assumes "consumed < W" and "length s < chunk_bits tr W C consumed"
  shows "ReadVariableWidth_loop tr W C acc consumed s = None"
  unfolding ReadVariableWidth_loop_step [OF assms(1)] Let_def using assms(2) by simp

section \<open>Variable-width chunked encoding: round trip\<close>

lemma take_bit_OR_push_bit:
  "take_bit e v OR push_bit e (take_bit n (drop_bit e v)) = take_bit (e + n) (v::64 word)"
  by (rule bit_word_eqI) (auto simp: bit_simps)

lemma take_bit_id_mono:
  assumes "take_bit W v = (v::64 word)" and "W \<le> m"
  shows "take_bit m v = v"
proof -
  have "take_bit m (take_bit W v) = take_bit W v"
    using assms(2) by (simp add: min_def)
  then show ?thesis
    by (simp only: assms(1))
qed

lemma drop_bit_0_take_bit: "drop_bit m v = 0 \<Longrightarrow> take_bit m v = (v::64 word)"
  by (simp add: take_bit_eq_self_iff_drop_bit_eq_0)

text \<open>
  The two loops in step: the writer at the bits of \<open>v\<close> from \<open>e\<close> on, the reader with
  the bits of \<open>v\<close> below \<open>e\<close> in its accumulator.
\<close>

lemma VariableWidth_loop_roundtrip:
  assumes C: "1 \<le> C" and v: "take_bit W v = v"
  shows "\<exists>bs. WriteVariableWidth_loop tr W C (drop_bit e v) e s = Some (s @ bs)
            \<and> (\<forall>rest. ReadVariableWidth_loop tr W C (take_bit e v) e (bs @ rest)
                        = Some (v, rest))"
proof (induction "W - e" arbitrary: e s rule: less_induct)
  case less
  show ?case
  proof (cases "e < W")
    case False
    then have "W \<le> e"
      by simp
    then have "take_bit e v = v"
      by (rule take_bit_id_mono [OF v])
    with False show ?thesis
      by (simp add: WriteVariableWidth_loop_done ReadVariableWidth_loop_done)
  next
    case True
    define n where "n = chunk_bits tr W C e"
    define B where "B = map (bit (drop_bit e v)) [0..<n]"
    have B: "length B = n" "take n (B @ xs) = B" "drop n (B @ xs) = xs" for xs
      by (simp_all add: B_def)
    have "horner_sum of_bool 2 B = take_bit n (drop_bit e v)"
      by (simp add: B_def horner_sum_bit_eq_take_bit)
    then have acc: "take_bit e v OR push_bit e (horner_sum of_bool 2 B) = take_bit (e + n) v"
      by (simp only: take_bit_OR_push_bit)
    have npos: "0 < n"
      using C True by (simp add: n_def chunk_bits_def)
    note W = WriteVariableWidth_loop_step
      [OF True, of tr C "drop_bit e v" s, unfolded Let_def, folded n_def, folded B_def]
    have R: "ReadVariableWidth_loop tr W C (take_bit e v) e ((B @ xs) @ rest) =
       (if W \<le> e + n then Some (take_bit (e + n) v, xs @ rest)
        else case xs @ rest of
               [] \<Rightarrow> None
             | b # s2 \<Rightarrow>
                 if b then ReadVariableWidth_loop tr W C (take_bit (e + n) v) (e + n) s2
                 else Some (take_bit (e + n) v, s2))" for xs rest
    proof -
      have t: "take n ((B @ xs) @ rest) = B" and d: "drop n ((B @ xs) @ rest) = xs @ rest"
        and l: "\<not> length ((B @ xs) @ rest) < n"
        by (simp_all add: B)
      show ?thesis
        unfolding ReadVariableWidth_loop_step [OF True] Let_def n_def [symmetric] t d acc
        using l by simp
    qed
    show ?thesis
    proof (cases "W \<le> e + n")
      case reached: True
      then have "take_bit (e + n) v = v"
        by (rule take_bit_id_mono [OF v])
      with reached have "WriteVariableWidth_loop tr W C (drop_bit e v) e s = Some (s @ B)"
        and "\<And>rest. ReadVariableWidth_loop tr W C (take_bit e v) e (B @ rest) = Some (v, rest)"
        using W R [of "[]"] by simp_all
      then show ?thesis
        by blast
    next
      case more: False
      then have nC: "n = C"
        by (auto simp: n_def chunk_bits_def min_def split: if_splits)
      have d: "drop_bit C (drop_bit e v) = drop_bit (e + n) v"
        by (simp add: nC add.commute)
      note W' = W [unfolded d]
      show ?thesis
      proof (cases "drop_bit (e + n) v = 0")
        case stop: True
        then have "take_bit (e + n) v = v"
          by (rule drop_bit_0_take_bit)
        with more stop
        have "WriteVariableWidth_loop tr W C (drop_bit e v) e s = Some (s @ (B @ [False]))"
          and "\<And>rest. ReadVariableWidth_loop tr W C (take_bit e v) e ((B @ [False]) @ rest)
                      = Some (v, rest)"
          using W' R [of "[False]"] by simp_all
        then show ?thesis
          by blast
      next
        case cont: False
        have "W - (e + n) < W - e"
          using True npos by simp
        from less [OF this, of "(s @ B) @ [True]"]
        obtain bs where
          w: "WriteVariableWidth_loop tr W C (drop_bit (e + n) v) (e + n) ((s @ B) @ [True])
                = Some (((s @ B) @ [True]) @ bs)"
          and r: "\<And>rest. ReadVariableWidth_loop tr W C (take_bit (e + n) v) (e + n) (bs @ rest)
                = Some (v, rest)"
          by blast
        have "WriteVariableWidth_loop tr W C (drop_bit e v) e s = Some (s @ (B @ True # bs))"
          using more cont w W' by simp
        moreover
        have "\<And>rest. ReadVariableWidth_loop tr W C (take_bit e v) e ((B @ True # bs) @ rest)
                = Some (v, rest)"
          using more r R [of "True # bs"] by simp
        ultimately show ?thesis
          by blast
      qed
    qed
  qed
qed

lemma ucast_64_roundtrip:
  assumes "LENGTH('a::len) \<le> 64"
  shows "take_bit LENGTH('a) (ucast (val::'a word) :: 64 word) = ucast val"
    and "ucast (ucast val :: 64 word) = val"
  using assms by (auto intro!: bit_word_eqI simp: bit_simps dest: bit_imp_le_length)

lemma VariableWidthU_roundtrip:
  fixes val :: "'a::len word"
  assumes L: "LENGTH('a) \<le> 64" and C: "1 \<le> C"
  shows "\<exists>bs. WriteVariableWidthU tr s val C = Some (s @ bs)
            \<and> (\<forall>rest. ReadVariableWidthU tr (bs @ rest) C = Some (val, rest))"
proof -
  let ?v = "ucast val :: 64 word"
  from VariableWidth_loop_roundtrip
    [OF C ucast_64_roundtrip(1) [OF L], where val1 = val and tr = tr and e = 0 and s = s]
  obtain bs where "WriteVariableWidth_loop tr LENGTH('a) C ?v 0 s = Some (s @ bs)"
    and "\<And>rest. ReadVariableWidth_loop tr LENGTH('a) C 0 0 (bs @ rest) = Some (?v, rest)"
    by auto
  then have "WriteVariableWidthU tr s val C = Some (s @ bs)"
    and "\<And>rest. ReadVariableWidthU tr (bs @ rest) C = Some (val, rest)"
    by (simp_all add: WriteVariableWidthU_def ReadVariableWidthU_def ucast_64_roundtrip(2) [OF L])
  then show ?thesis
    by blast
qed

text \<open>
  C1. For every width \<open>W\<close> of at most 64 bits (\<open>WriteVariableWidthU8\<close>, \<open>U16\<close>, \<open>U32\<close> and
  \<open>U64\<close> are the widths 8, 16, 32 and 64), every value of that width and every chunk
  length in \<open>[1,64]\<close>, under either reading of the last chunk: the encoder returns,
  appending bits \<open>bs\<close> to what was written before, and the decoder with the same chunk
  length, positioned at the start of \<open>bs\<close>, returns the original value and stops right
  after \<open>bs\<close>, whatever follows.
\<close>

theorem VariableWidth_roundtrip:
  fixes val :: "'a::len word"
  assumes "LENGTH('a) \<le> 64" and "1 \<le> C" and "C \<le> 64"
  shows "\<exists>bs. WriteVariableWidthU truncate_last stream val C = Some (stream @ bs)
            \<and> (\<forall>rest. ReadVariableWidthU truncate_last (bs @ rest) C = Some (val, rest))"
  using assms(1,2) by (rule VariableWidthU_roundtrip)

theorem VariableWidth_roundtrip_witness:
  "LENGTH(8) \<le> (64::nat) \<and> (1::nat) \<le> 4 \<and> (4::nat) \<le> 64
   \<and> WriteVariableWidthU8 True [] 255 4
       = Some [True, True, True, True, True, True, True, True, True]
   \<and> ReadVariableWidthU8 True
        ([True, True, True, True, True, True, True, True, True] @ [False, True]) 4
       = Some (255, [False, True])"
proof -
  have w: "WriteVariableWidthU8 True [] 255 4
       = Some [True, True, True, True, True, True, True, True, True]"
    by (simp add: WriteVariableWidthU_def WriteVariableWidth_loop.simps chunk_bits_def
        WriteBits_def upt_rec)
  have "LENGTH(8) \<le> (64::nat)" and "(1::nat) \<le> 4" and "(4::nat) \<le> 64"
    by simp_all
  from VariableWidth_roundtrip [OF this, of True "[]" 255]
  obtain bs where "WriteVariableWidthU8 True [] 255 4 = Some ([] @ bs)"
    and r: "\<And>rest. ReadVariableWidthU8 True (bs @ rest) 4 = Some (255, rest)"
    by blast
  with w have "bs = [True, True, True, True, True, True, True, True, True]"
    by simp
  with r [of "[False, True]"] w show ?thesis
    by simp
qed

section \<open>Variable-width chunked encoding: truncated streams\<close>

text \<open>
  A read that succeeds has consumed a front part \<open>used\<close> of the stream; on every
  shorter front part of the stream it fails.
\<close>

lemma ReadVariableWidth_loop_prefix:
  assumes "ReadVariableWidth_loop tr W C acc e s = Some (v, rest)"
  shows "\<exists>used. s = used @ rest
           \<and> (\<forall>m<length used. ReadVariableWidth_loop tr W C acc e (take m s) = None)"
  using assms
proof (induction "length s" arbitrary: acc e s rule: less_induct)
  case less
  show ?case
  proof (cases "e < W")
    case False
    with less.prems have "s = [] @ rest"
      by (simp add: ReadVariableWidth_loop_done)
    then show ?thesis
      by (metis length_0_conv not_less_zero)
  next
    case True
    define n where "n = chunk_bits tr W C e"
    define acc1 where "acc1 = acc OR push_bit e (horner_sum of_bool 2 (take n s))"
    note step = ReadVariableWidth_loop_step [OF True, of tr C acc, unfolded Let_def, folded n_def]
    have short: "ReadVariableWidth_loop tr W C acc e (take m s) = None" if "m < n" for m
      using that by (intro ReadVariableWidth_loop_short [OF True]) (simp add: n_def [symmetric])
    from less.prems have n: "n \<le> length s"
      unfolding step [of s] by (simp split: if_splits)
    have exact: "ReadVariableWidth_loop tr W C acc e (take n s) = None" if "\<not> W \<le> e + n"
      unfolding step [of "take n s"] using that n by simp
    show ?thesis
    proof (cases "W \<le> e + n")
      case reached: True
      with less.prems n have "rest = drop n s"
        unfolding step [of s] by simp
      then have "s = take n s @ rest"
        by simp
      moreover have "\<forall>m<length (take n s). ReadVariableWidth_loop tr W C acc e (take m s) = None"
        using n short by simp
      ultimately show ?thesis
        by blast
    next
      case more: False
      with less.prems n obtain b s2 where d: "drop n s = b # s2"
        unfolding step [of s] by (cases "drop n s") simp_all
      then have s: "s = take n s @ b # s2"
        by (metis append_take_drop_id)
      show ?thesis
      proof (cases b)
        case False
        with less.prems n more d have "rest = s2"
          unfolding step [of s] by simp
        with s have "s = (take n s @ [b]) @ rest"
          by simp
        moreover have "ReadVariableWidth_loop tr W C acc e (take m s) = None"
          if "m < length (take n s @ [b])" for m
        proof (cases "m < n")
          case True
          then show ?thesis
            by (rule short)
        next
          case False
          with that n have "m = n"
            by simp
          then show ?thesis
            using exact [OF more] by simp
        qed
        ultimately show ?thesis
          by blast
      next
        case True
        with less.prems n more d
        have rec: "ReadVariableWidth_loop tr W C acc1 (e + n) s2 = Some (v, rest)"
          unfolding step [of s] acc1_def by simp
        have "length s2 < length s"
          using s by (metis add_Suc_right length_Cons length_append less_add_Suc2)
        from less.hyps [OF this rec]
        obtain used2 where u2: "s2 = used2 @ rest"
          and f2: "\<And>m. m < length used2 \<Longrightarrow>
                    ReadVariableWidth_loop tr W C acc1 (e + n) (take m s2) = None"
          by blast
        from s u2 have "s = (take n s @ b # used2) @ rest"
          by simp
        moreover have "ReadVariableWidth_loop tr W C acc e (take m s) = None"
          if m: "m < length (take n s @ b # used2)" for m
        proof -
          consider "m < n" | "m = n" | "n < m"
            by linarith
          then show ?thesis
          proof cases
            case 1
            then show ?thesis
              by (rule short)
          next
            case 2
            then show ?thesis
              using exact [OF more] by simp
          next
            case 3
            define m' where "m' = m - n - 1"
            have m': "m = n + 1 + m'" "m' < length used2"
              using 3 m n by (simp_all add: m'_def)
            have "m = n + Suc m'"
              using m' by simp
            then have "take m s = take n s @ take (Suc m') (drop n s)"
              by (simp only: take_add)
            then have "take m s = take n s @ b # take m' s2"
              by (simp add: d)
            then have t: "take n (take m s) = take n s" "drop n (take m s) = b # take m' s2"
              "\<not> length (take m s) < n"
              using n by simp_all
            show ?thesis
              unfolding step [of "take m s"] t acc1_def [symmetric]
              using more True f2 [OF m'(2)] by simp
          qed
        qed
        ultimately show ?thesis
          by blast
      qed
    qed
  qed
qed

lemma ReadVariableWidth_loop_truncated:
  assumes "ReadVariableWidth_loop tr W C acc e (used @ rest) = Some (v, rest)"
    and "n < length used"
  shows "ReadVariableWidth_loop tr W C acc e (take n used) = None"
proof -
  from ReadVariableWidth_loop_prefix [OF assms(1)]
  obtain used' where u: "used @ rest = used' @ rest"
    and f: "\<And>m. m < length used' \<Longrightarrow>
              ReadVariableWidth_loop tr W C acc e (take m (used @ rest)) = None"
    by blast
  from u have "used' = used"
    by simp
  with f [of n] assms(2) show ?thesis
    by simp
qed

lemma ReadVariableWidthU_truncated:
  assumes "ReadVariableWidthU tr (used @ rest) C = Some (v :: 'a::len word, rest)"
    and "n < length used"
  shows "ReadVariableWidthU tr (take n used) C = (None :: ('a word \<times> bool list) option)"
proof -
  from assms(1) obtain v' where
    "ReadVariableWidth_loop tr LENGTH('a) C 0 0 (used @ rest) = Some (v', rest)"
    by (auto simp: ReadVariableWidthU_def split: option.splits)
  from ReadVariableWidth_loop_truncated [OF this assms(2)] show ?thesis
    by (simp add: ReadVariableWidthU_def)
qed

lemma ReadVariableWidthS_truncated:
  assumes "ReadVariableWidthS tr (used @ rest) C k = Some (v :: 'a::len word, rest)"
    and "n < length used"
  shows "ReadVariableWidthS tr (take n used) C k = (None :: ('a word \<times> bool list) option)"
proof -
  from assms(1) obtain v' where
    "ReadVariableWidth_loop tr LENGTH('a) C 0 0 (used @ rest) = Some (v', rest)"
    by (auto simp: ReadVariableWidthS_def split: option.splits)
  from ReadVariableWidth_loop_truncated [OF this assms(2)] show ?thesis
    by (simp add: ReadVariableWidthS_def)
qed

lemma ReadVariableWidthU_truncated_encoding:
  fixes val :: "'a::len word"
  assumes "LENGTH('a) \<le> 64" and "1 \<le> C"
    and "WriteVariableWidthU tr [] val C = Some bs" and "n < length bs"
  shows "ReadVariableWidthU tr (take n bs) C = (None :: ('a word \<times> bool list) option)"
proof -
  from VariableWidthU_roundtrip [OF assms(1,2), of tr "[]" val]
  obtain bs' where w: "WriteVariableWidthU tr [] val C = Some ([] @ bs')"
    and r: "\<And>rest. ReadVariableWidthU tr (bs' @ rest) C = Some (val, rest)"
    by blast
  from w assms(3) have "bs' = bs"
    by simp
  with r [of "[]"] have "ReadVariableWidthU tr (bs @ []) C = Some (val, [])"
    by simp
  from ReadVariableWidthU_truncated [OF this assms(4)] show ?thesis .
qed

text \<open>
  C3. For every width (\<open>ReadVariableWidthU8\<close>, \<open>U16\<close>, \<open>U32\<close>, \<open>U64\<close> and the signed
  \<open>S8\<close>, \<open>S16\<close>, \<open>S32\<close>, \<open>S64\<close> are the widths 8, 16, 32 and 64) and every chunk length,
  under either reading of the last chunk: when a read succeeds on a stream, having
  consumed its front part \<open>used\<close>, the same read on a stream that ends anywhere
  before the end of \<open>used\<close> (so that a raw read comes back with fewer bits than asked
  for) returns false, with no value. In particular, for a chunk length in \<open>[1,64]\<close>,
  the read fails on every stream that ends within the encoding of a value.
\<close>

theorem ReadVariableWidth_truncated_fails:
  fixes v sv val :: "'a::len word"
  shows
    "(ReadVariableWidthU truncate_last (used @ rest) C = Some (v, rest) \<and> n < length used \<longrightarrow>
        ReadVariableWidthU truncate_last (take n used) C
          = (None :: ('a word \<times> bool list) option))
     \<and> (ReadVariableWidthS truncate_last (used @ rest) C k = Some (sv, rest)
          \<and> n < length used \<longrightarrow>
        ReadVariableWidthS truncate_last (take n used) C k
          = (None :: ('a word \<times> bool list) option))
     \<and> (LENGTH('a) \<le> 64 \<and> 1 \<le> C \<and> C \<le> 64
          \<and> WriteVariableWidthU truncate_last [] val C = Some bs \<and> m < length bs \<longrightarrow>
        ReadVariableWidthU truncate_last (take m bs) C
          = (None :: ('a word \<times> bool list) option))"
  using ReadVariableWidthU_truncated [of truncate_last used rest C v n]
    ReadVariableWidthS_truncated [of truncate_last used rest C k sv n]
    ReadVariableWidthU_truncated_encoding [of C truncate_last val bs m]
  by blast

theorem ReadVariableWidth_truncated_fails_witness:
  "ReadVariableWidthU8 True ([True, False, False, False, False] @ [True]) 4 = Some (1, [True])
   \<and> ReadVariableWidthU8 True (take 3 [True, False, False, False, False]) 4 = None
   \<and> ReadVariableWidthS8 True ([True, False, False, False, False] @ [True]) 4 0
        = Some (- 1, [True])
   \<and> ReadVariableWidthS8 True (take 3 [True, False, False, False, False]) 4 0 = None
   \<and> WriteVariableWidthU8 True [] 1 4 = Some [True, False, False, False, False]
   \<and> ReadVariableWidthU8 True (take 4 [True, False, False, False, False]) 4 = None"
proof -
  have "ucast (- 1 :: 64 word) = (- 1 :: 8 word)"
    by (rule bit_word_eqI) (simp add: bit_simps)
  with ReadVariableWidth_truncated_fails
    [where 'a = 8 and truncate_last = True and used = "[True, False, False, False, False]"
       and rest = "[True]" and C = 4 and n = 3 and v = 1 and sv = "- 1" and k = 0
       and val = 1 and bs = "[True, False, False, False, False]" and m = 4]
  show ?thesis
    by (simp add: ReadVariableWidthU_def ReadVariableWidthS_def ReadVariableWidth_loop.simps
      WriteVariableWidthU_def WriteVariableWidth_loop.simps chunk_bits_def ReadBits_def
      WriteBits_def DecodeZigZag_block_def GetLowerBits_def shl_def upt_rec)
qed

section \<open>End detection of the reader\<close>

lemma OnlyZeroesLeft_sound:
  assumes z: "OnlyZeroesLeft r" and i: "rd_pos r \<le> i" "i < length (rd_buffer r) * 64"
  shows "\<not> bit_at r i"
proof -
  let ?index = "rd_pos r div 64" and ?offset = "rd_pos r mod 64"
  from i have nr: "\<not> ReachedEnd r"
    by (simp add: ReachedEnd_def)
  with z have cur: "drop_bit ?offset (rd_buffer r ! ?index) = 0"
    and later: "list_all (\<lambda>w. w = 0) (drop (Suc ?index) (rd_buffer r))"
    by (simp_all add: OnlyZeroesLeft_def Let_def)
  have le: "?index \<le> i div 64"
    using i(1) by (rule div_le_mono)
  have lt: "i div 64 < length (rd_buffer r)"
    using i(2) by (simp add: less_mult_imp_div_less)
  show ?thesis
  proof (cases "i div 64 = ?index")
    case True
    have "?index * 64 + ?offset \<le> i div 64 * 64 + i mod 64"
      using i(1) by (simp only: div_mult_mod_eq)
    then have "?offset \<le> i mod 64"
      by (simp only: True add_le_cancel_left)
    then have "bit (rd_buffer r ! ?index) (i mod 64)
        = bit (drop_bit ?offset (rd_buffer r ! ?index)) (i mod 64 - ?offset)"
      by (simp add: bit_drop_bit_eq)
    then show ?thesis
      by (simp add: bit_at_def True cur)
  next
    case False
    with le have "Suc ?index \<le> i div 64"
      by simp
    then have "drop (Suc ?index) (rd_buffer r) ! (i div 64 - Suc ?index)
          = rd_buffer r ! (i div 64)"
      and "i div 64 - Suc ?index < length (drop (Suc ?index) (rd_buffer r))"
      using lt by simp_all
    then have "rd_buffer r ! (i div 64) \<in> set (drop (Suc ?index) (rd_buffer r))"
      by (metis nth_mem)
    with later have "rd_buffer r ! (i div 64) = 0"
      by (simp add: list_all_iff)
    then show ?thesis
      by (simp add: bit_at_def)
  qed
qed

text \<open>
  C6. The default \<open>OnlyZeroesLeft\<close> of \<open>BitReaderInterface\<close> returns exactly what
  \<open>ReachedEnd\<close> returns, whatever the implementing class. For every state of the
  word-packed reader, \<open>OnlyZeroesLeft\<close> is true when \<open>ReachedEnd\<close> is, and when
  \<open>OnlyZeroesLeft\<close> is true (the reader's own or the default one) no bit from the
  read position up to the capacity is set.
\<close>

theorem OnlyZeroesLeft_no_false_positive:
  "BitReaderInterface_OnlyZeroesLeft reached x = reached x
   \<and> (ReachedEnd r \<longrightarrow> OnlyZeroesLeft r)
   \<and> (OnlyZeroesLeft r \<longrightarrow>
        (\<forall>i. rd_pos r \<le> i \<and> i < length (rd_buffer r) * 64 \<longrightarrow> \<not> bit_at r i))
   \<and> (BitReaderInterface_OnlyZeroesLeft ReachedEnd r \<longrightarrow>
        (\<forall>i. rd_pos r \<le> i \<and> i < length (rd_buffer r) * 64 \<longrightarrow> \<not> bit_at r i))"
  using OnlyZeroesLeft_sound [of r]
  by (auto simp: BitReaderInterface_OnlyZeroesLeft_def OnlyZeroesLeft_def ReachedEnd_def)

theorem OnlyZeroesLeft_no_false_positive_witness:
  "ReachedEnd \<lparr>rd_buffer = [5], rd_pos = 64\<rparr>
   \<and> OnlyZeroesLeft \<lparr>rd_buffer = [5], rd_pos = 64\<rparr>
   \<and> BitReaderInterface_OnlyZeroesLeft ReachedEnd \<lparr>rd_buffer = [5], rd_pos = 64\<rparr>
   \<and> OnlyZeroesLeft \<lparr>rd_buffer = [5, 0], rd_pos = 3\<rparr>
   \<and> \<not> bit_at \<lparr>rd_buffer = [5, 0], rd_pos = 3\<rparr> 70
   \<and> bit_at \<lparr>rd_buffer = [5, 0], rd_pos = 2\<rparr> 2
   \<and> \<not> OnlyZeroesLeft \<lparr>rd_buffer = [5, 0], rd_pos = 2\<rparr>"
  using OnlyZeroesLeft_no_false_positive
      [of ReachedEnd "\<lparr>rd_buffer = [5], rd_pos = 64\<rparr>" "\<lparr>rd_buffer = [5], rd_pos = 64\<rparr>"]
    OnlyZeroesLeft_no_false_positive
      [of ReachedEnd "\<lparr>rd_buffer = [5, 0], rd_pos = 3\<rparr>" "\<lparr>rd_buffer = [5, 0], rd_pos = 3\<rparr>"]
  by (simp add: ReachedEnd_def OnlyZeroesLeft_def bit_at_def drop_bit_eq_div
      BitReaderInterface_OnlyZeroesLeft_def)

end
